theory Spec2Isabelle
  imports Main
begin

section \<open>Python strings\<close>

text \<open>
  A Python \<open>str\<close> is a sequence of Unicode code points and \<open>len\<close> counts code points,
  so a string is modelled as a list of code points (natural numbers), not of bytes.
\<close>

type_synonym uchar = nat
type_synonym ustring = "uchar list"

definition ustr :: "string \<Rightarrow> ustring" where
  \<comment> \<open>an ASCII literal of the source\<close>
  "ustr s = map of_char s"

abbreviation NL :: uchar where
  \<comment> \<open>the line feed of \<open>'\n'\<close>\<close>
  "NL \<equiv> 10"

abbreviation EQS :: uchar where
  \<comment> \<open>the equals sign of \<open>'='\<close>\<close>
  "EQS \<equiv> 61"

definition is_space :: "uchar \<Rightarrow> bool" where
  \<comment> \<open>\<open>Py_UNICODE_ISSPACE\<close>: the characters \<open>str.strip()\<close> and \<open>str.split()\<close> treat as whitespace\<close>
  "is_space c \<longleftrightarrow>
     (9 \<le> c \<and> c \<le> 13) \<or> (28 \<le> c \<and> c \<le> 32) \<or> c = 133 \<or> c = 160 \<or> c = 5760 \<or>
     (8192 \<le> c \<and> c \<le> 8202) \<or> c = 8232 \<or> c = 8233 \<or> c = 8239 \<or> c = 8287 \<or> c = 12288"

definition py_strip :: "ustring \<Rightarrow> ustring" where
  \<comment> \<open>\<open>s.strip()\<close>\<close>
  "py_strip s = rev (dropWhile is_space (rev (dropWhile is_space s)))"

fun split_ws :: "ustring \<Rightarrow> ustring \<Rightarrow> ustring list" where
  \<comment> \<open>\<open>s.split()\<close>: maximal runs of non-whitespace; the first argument is the token being read\<close>
  "split_ws cur [] = (if cur = [] then [] else [cur])"
| "split_ws cur (c # cs) =
     (if is_space c then (if cur = [] then split_ws [] cs else cur # split_ws [] cs)
      else split_ws (cur @ [c]) cs)"

definition py_split :: "ustring \<Rightarrow> ustring list" where
  "py_split s = split_ws [] s"

fun split_on :: "uchar \<Rightarrow> ustring \<Rightarrow> ustring list" where
  \<comment> \<open>\<open>s.split(d)\<close> for a one-character separator: n separators give n + 1 pieces\<close>
  "split_on d [] = [[]]"
| "split_on d (c # cs) =
     (if c = d then [] # split_on d cs
      else (case split_on d cs of [] \<Rightarrow> [[c]] | l # ls \<Rightarrow> (c # l) # ls))"

fun join :: "ustring \<Rightarrow> ustring list \<Rightarrow> ustring" where
  \<comment> \<open>\<open>sep.join(parts)\<close>\<close>
  "join sep [] = []"
| "join sep [x] = x"
| "join sep (x # y # ys) = x @ sep @ join sep (y # ys)"

fun startswith :: "ustring \<Rightarrow> ustring \<Rightarrow> bool" where
  \<comment> \<open>\<open>s.startswith(p)\<close>\<close>
  "startswith s [] = True"
| "startswith [] (p # ps) = False"
| "startswith (c # cs) (p # ps) = (c = p \<and> startswith cs ps)"

fun contains :: "ustring \<Rightarrow> ustring \<Rightarrow> bool" where
  \<comment> \<open>\<open>sub in s\<close>\<close>
  "contains [] sub = (sub = [])"
| "contains (c # cs) sub = (startswith (c # cs) sub \<or> contains cs sub)"

function re_sub_newlines :: "ustring \<Rightarrow> ustring" where
  \<comment> \<open>\<open>re.sub(r'\n{4,}', '\n\n', s)\<close>: scanning from the left, a greedy match of four or
      more line feeds is replaced by two; any other character is copied\<close>
  "re_sub_newlines [] = []"
| "re_sub_newlines (c # cs) =
     (if c = NL \<and> 3 \<le> length (takeWhile (\<lambda>x. x = NL) cs)
      then NL # NL # re_sub_newlines (dropWhile (\<lambda>x. x = NL) cs)
      else c # re_sub_newlines cs)"
  by pat_completeness auto
termination
  by (relation "measure length") (auto simp: length_dropWhile_le less_Suc_eq_le)

section \<open>The section-title formatter\<close>

definition section_header :: "ustring \<Rightarrow> ustring" where
  \<comment> \<open>the f-string appended by \<open>format_content_with_sections\<close> on a matching line\<close>
  "section_header t = [NL, NL] @ replicate 70 EQS @ [NL] @ t @ [NL] @ replicate 70 EQS @ [NL, NL]"

fun match_title :: "ustring \<Rightarrow> ustring list \<Rightarrow> ustring option" where
  \<comment> \<open>the inner \<open>for title in section_titles\<close> loop with its \<open>break\<close>: the title whose header
      is appended, \<open>None\<close> when \<open>is_section_title\<close> stays \<open>False\<close>\<close>
  "match_title line_stripped [] = None"
| "match_title line_stripped (t # ts) =
     (if line_stripped = t \<or> startswith line_stripped t then Some t
      else match_title line_stripped ts)"

fun format_lines :: "ustring list \<Rightarrow> ustring list \<Rightarrow> ustring list \<Rightarrow> ustring list" where
  \<comment> \<open>the loop over \<open>lines\<close>; the last argument is \<open>formatted_parts\<close>\<close>
  "format_lines section_titles [] formatted_parts = formatted_parts"
| "format_lines section_titles (line # lines) formatted_parts =
     (let line_stripped = py_strip line in
      case match_title line_stripped section_titles of
        Some t \<Rightarrow> format_lines section_titles lines (formatted_parts @ [section_header t])
      | None \<Rightarrow>
          if line_stripped \<noteq> [] then format_lines section_titles lines (formatted_parts @ [line])
          else format_lines section_titles lines formatted_parts)"

definition joined_parts :: "ustring \<Rightarrow> ustring list \<Rightarrow> ustring" where
  \<comment> \<open>\<open>formatted_text\<close> before the clean-up of newlines\<close>
  "joined_parts content_text section_titles =
     join [NL] (format_lines section_titles (split_on NL content_text) [])"

definition format_content_with_sections :: "ustring \<Rightarrow> ustring list \<Rightarrow> ustring" where
  "format_content_with_sections content_text section_titles =
     (if section_titles = [] \<or> content_text = [] then content_text
      else re_sub_newlines (joined_parts content_text section_titles))"

section \<open>Classified elements and the section grouper\<close>

datatype raw_element =
  Element (tag_name: ustring) (element_text: ustring)
    \<comment> \<open>\<open>element.tag_name.lower()\<close> and \<open>element.text\<close> of one element of \<open>all_elements\<close>\<close>
| Unreadable
    \<comment> \<open>reading the element raised; the first pass skips it\<close>

datatype elem =
  Heading (etext: ustring) (elevel: int) (eindex: nat)
| Paragraph (etext: ustring) (eindex: nat)

fun is_paragraph :: "elem \<Rightarrow> bool" where
  "is_paragraph (Paragraph t i) = True"
| "is_paragraph (Heading t l i) = False"

fun is_heading :: "elem \<Rightarrow> bool" where
  "is_heading (Heading t l i) = True"
| "is_heading (Paragraph t i) = False"

definition heading_level :: "ustring \<Rightarrow> int option" where
  \<comment> \<open>\<open>int(tag_name[1])\<close>; \<open>None\<close> where it raises (no second character, or not a digit).
      Tag names are ASCII, so only the ASCII digits are read as digits.\<close>
  "heading_level tag =
     (case tag of
        _ # d # _ \<Rightarrow> (if 48 \<le> d \<and> d \<le> 57 then Some (int d - 48) else None)
      | _ \<Rightarrow> None)"

fun first_pass :: "nat \<Rightarrow> raw_element list \<Rightarrow> elem list" where
  \<comment> \<open>the loop over \<open>enumerate(all_elements)\<close> building \<open>elements_data\<close>\<close>
  "first_pass idx [] = []"
| "first_pass idx (Unreadable # es) = first_pass (Suc idx) es"
| "first_pass idx (Element tag raw # es) =
     (let text = py_strip raw in
      if text = [] \<or> length text < 3 then first_pass (Suc idx) es
      else if startswith tag (ustr ''h'') then
        (case heading_level tag of
           None \<Rightarrow> first_pass (Suc idx) es
         | Some level \<Rightarrow> Heading text level idx # first_pass (Suc idx) es)
      else if tag = ustr ''p'' \<and> length text > 20 then Paragraph text idx # first_pass (Suc idx) es
      else first_pass (Suc idx) es)"

record sect =
  title :: "ustring option"
  level :: int
  content :: "ustring list"

record grouper =
  current_section :: sect
  structured_content :: "sect list"
  all_text_parts :: "ustring list"
  section_count :: nat
  paragraph_count :: nat

definition initial_grouper :: grouper where
  "initial_grouper =
     \<lparr>current_section = \<lparr>title = None, level = 0, content = []\<rparr>,
      structured_content = [], all_text_parts = [], section_count = 0, paragraph_count = 0\<rparr>"

definition has_title_and_content :: "sect \<Rightarrow> bool" where
  \<comment> \<open>\<open>current_section['title'] and current_section['content']\<close>\<close>
  "has_title_and_content s \<longleftrightarrow> title s \<noteq> None \<and> title s \<noteq> Some [] \<and> content s \<noteq> []"

definition title_text :: "sect \<Rightarrow> ustring" where
  \<comment> \<open>the title as an f-string prints it\<close>
  "title_text s = (case title s of None \<Rightarrow> ustr ''None'' | Some t \<Rightarrow> t)"

definition boundary_parts :: "ustring \<Rightarrow> ustring list" where
  \<comment> \<open>the three header strings appended to \<open>all_text_parts\<close> when a section is saved\<close>
  "boundary_parts t = [[NL, NL] @ replicate 70 EQS @ [NL], t @ [NL], replicate 70 EQS @ [NL, NL]]"

definition save_section :: "grouper \<Rightarrow> grouper" where
  \<comment> \<open>the body of \<open>if current_section['title'] and current_section['content']\<close>\<close>
  "save_section g =
     g\<lparr>structured_content := structured_content g @ [current_section g],
       section_count := section_count g + 1,
       all_text_parts := all_text_parts g @ boundary_parts (title_text (current_section g))
                           @ [join [NL, NL] (content (current_section g))]\<rparr>"

definition save_if_realized :: "grouper \<Rightarrow> grouper" where
  "save_if_realized g = (if has_title_and_content (current_section g) then save_section g else g)"

fun collect_paragraphs :: "elem list \<Rightarrow> grouper \<Rightarrow> grouper" where
  \<comment> \<open>the \<open>while\<close> loop from \<open>j = i + 1\<close>; the list is \<open>elements_data[j:]\<close>\<close>
  "collect_paragraphs [] g = g"
| "collect_paragraphs (e # es) g =
     (if is_paragraph e then
        collect_paragraphs es
          (g\<lparr>current_section := (current_section g)\<lparr>content := content (current_section g) @ [etext e]\<rparr>,
             paragraph_count := paragraph_count g + 1\<rparr>)
      else g)"

fun second_pass :: "elem list \<Rightarrow> grouper \<Rightarrow> grouper" where
  \<comment> \<open>the loop over \<open>enumerate(elements_data)\<close>\<close>
  "second_pass [] g = g"
| "second_pass (Paragraph t i # rest) g = second_pass rest g"
| "second_pass (Heading t l i # rest) g =
     second_pass rest
       (collect_paragraphs rest
          ((save_if_realized g)\<lparr>current_section := \<lparr>title = Some t, level = l, content = []\<rparr>\<rparr>))"

definition group_sections :: "elem list \<Rightarrow> grouper" where
  \<comment> \<open>the second pass and the saving of the last section\<close>
  "group_sections elements_data = save_if_realized (second_pass elements_data initial_grouper)"

section \<open>References\<close>

record reference =
  number :: nat
  url :: ustring

fun reference_loop :: "ustring option list \<Rightarrow> ustring set \<Rightarrow> reference list \<Rightarrow> reference list" where
  \<comment> \<open>the loop over \<open>ref_elements\<close>; an entry is the \<open>href\<close> attribute, \<open>None\<close> when it is
      missing or reading it raised\<close>
  "reference_loop [] seen_urls references = references"
| "reference_loop (None # hs) seen_urls references = reference_loop hs seen_urls references"
| "reference_loop (Some href # hs) seen_urls references =
     (if href \<noteq> [] \<and> \<not> contains href (ustr ''grokipedia.com'') \<and> href \<notin> seen_urls then
        (let references' = references @ [\<lparr>number = length references + 1, url = href\<rparr>] in
         if length references' \<ge> 100 then references'
         else reference_loop hs (insert href seen_urls) references')
      else reference_loop hs seen_urls references)"

definition extract_references :: "ustring option list \<Rightarrow> reference list" where
  "extract_references hrefs = reference_loop hrefs {} []"

section \<open>The article page\<close>

datatype error = ScrapeError

record page =
  title_elements :: "ustring option list"
    \<comment> \<open>per title selector, the text of the element found; \<open>None\<close> on \<open>NoSuchElementException\<close>\<close>
  current_url :: ustring
  container_elements :: "raw_element list"
    \<comment> \<open>the headings and paragraphs of the content container\<close>
  document_elements :: "raw_element list"
    \<comment> \<open>the headings and paragraphs of the whole document\<close>
  container_paragraphs :: "ustring list option"
    \<comment> \<open>the texts of the container's \<open>p\<close> elements; \<open>None\<close> when reading them raised\<close>
  container_text :: "ustring option"
    \<comment> \<open>\<open>content_container.text\<close>; \<open>None\<close> when reading it raised\<close>
  body_text :: "ustring option"
  link_hrefs :: "ustring option list"
  container_headings :: "ustring list"
    \<comment> \<open>the texts of the container's heading elements, as far as they could be read\<close>

record result =
  res_title :: ustring
  res_url :: ustring
  res_content_text :: ustring
  res_word_count :: nat
  res_char_count :: nat
  res_references_count :: nat
  res_references :: "reference list"
  res_structured_content :: "sect list option"
  res_section_titles :: "ustring list option"

fun find_title :: "ustring option list \<Rightarrow> ustring" where
  \<comment> \<open>the loop over \<open>title_selectors\<close>\<close>
  "find_title [] = ustr ''Title not found''"
| "find_title (None # sels) = find_title sels"
| "find_title (Some t # sels) = (if py_strip t \<noteq> [] then py_strip t else find_title sels)"

definition all_elements :: "page \<Rightarrow> raw_element list" where
  "all_elements pg =
     (if container_elements pg = [] then document_elements pg else container_elements pg)"

definition grouped :: "page \<Rightarrow> grouper" where
  "grouped pg = group_sections (first_pass 0 (all_elements pg))"

definition structured_text :: "page \<Rightarrow> ustring" where
  \<comment> \<open>\<open>content_text = "".join(all_text_parts)\<close>\<close>
  "structured_text pg = concat (all_text_parts (grouped pg))"

definition long_paragraphs :: "ustring list \<Rightarrow> ustring list" where
  \<comment> \<open>\<open>texts\<close> of the paragraph fallback\<close>
  "long_paragraphs ps = filter (\<lambda>text. text \<noteq> [] \<and> length text > 20) (map py_strip ps)"

definition paragraph_fallback :: "page \<Rightarrow> ustring \<Rightarrow> ustring" where
  "paragraph_fallback pg content_text =
     (if content_text = [] \<or> length content_text < 100 then
        (case container_paragraphs pg of
           None \<Rightarrow> content_text
         | Some ps \<Rightarrow>
             (let texts = long_paragraphs ps in
              if texts \<noteq> [] then join [NL, NL] texts else content_text))
      else content_text)"

definition final_fallback :: "page \<Rightarrow> ustring \<Rightarrow> error + ustring" where
  "final_fallback pg content_text =
     (if content_text = [] \<or> length content_text < 50 then
        (case container_text pg of
           Some t \<Rightarrow> Inr t
         | None \<Rightarrow> (case body_text pg of Some b \<Rightarrow> Inr b | None \<Rightarrow> Inl ScrapeError))
      else Inr content_text)"

definition fallback_chain :: "page \<Rightarrow> error + ustring" where
  \<comment> \<open>\<open>content_text\<close> after the two fallbacks\<close>
  "fallback_chain pg = final_fallback pg (paragraph_fallback pg (structured_text pg))"

definition extract_section_titles :: "page \<Rightarrow> ustring list" where
  \<comment> \<open>the loop over \<open>heading_elements\<close>\<close>
  "extract_section_titles pg =
     filter (\<lambda>heading_text. heading_text \<noteq> [] \<and> length heading_text > 2
                              \<and> heading_text \<noteq> find_title (title_elements pg))
       (map py_strip (container_headings pg))"

definition section_titles_of :: "page \<Rightarrow> ustring list" where
  \<comment> \<open>\<open>section_titles\<close>: collected only when no section was realized\<close>
  "section_titles_of pg =
     (if structured_content (grouped pg) = [] then extract_section_titles pg else [])"

definition scrape_article_page :: "page \<Rightarrow> error + result" where
  "scrape_article_page pg =
     (case fallback_chain pg of
        Inl e \<Rightarrow> Inl e
      | Inr content_text \<Rightarrow>
          (let word_count = length (py_split content_text);
               char_count = length content_text;
               references = extract_references (link_hrefs pg);
               section_titles = section_titles_of pg;
               sections = structured_content (grouped pg);
               (content_text', word_count', char_count') =
                 (if section_titles \<noteq> [] \<and> sections = [] then
                    (let formatted = format_content_with_sections content_text section_titles
                     in (formatted, length (py_split formatted), length formatted))
                  else (content_text, word_count, char_count))
           in Inr \<lparr>res_title = find_title (title_elements pg),
                   res_url = current_url pg,
                   res_content_text = content_text',
                   res_word_count = word_count',
                   res_char_count = char_count',
                   res_references_count = length references,
                   res_references = references,
                   res_structured_content = (if sections \<noteq> [] then Some sections else None),
                   res_section_titles = (if section_titles \<noteq> [] then Some section_titles else None)\<rparr>))"

section \<open>Notions of the specification\<close>

definition delimiter_block :: "ustring \<Rightarrow> ustring" where
  \<comment> \<open>a blank line, a line of 70 equals signs, the title, a line of 70 equals signs, a blank
      line: the lines of the block, empty ones at both ends, joined by line feeds\<close>
  "delimiter_block t = join [NL] [[], [], replicate 70 EQS, t, replicate 70 EQS, [], []]"

definition title_matches :: "ustring \<Rightarrow> ustring \<Rightarrow> bool" where
  \<comment> \<open>the trimmed line equals the title or starts with it\<close>
  "title_matches line t \<longleftrightarrow> py_strip line = t \<or> take (length t) (py_strip line) = t"

definition emit_line :: "ustring list \<Rightarrow> ustring \<Rightarrow> ustring list" where
  \<comment> \<open>what the formatter emits for one line: the block of the first matching title, else the
      line itself unless it is blank\<close>
  "emit_line titles line =
     (case find (title_matches line) titles of
        Some t \<Rightarrow> [delimiter_block t]
      | None \<Rightarrow> if py_strip line \<noteq> [] then [line] else [])"

definition lead_nl :: "ustring \<Rightarrow> nat" where
  \<comment> \<open>the number of line feeds a string starts with\<close>
  "lead_nl s = length (takeWhile (\<lambda>x. x = NL) s)"

definition section_at :: "elem list \<Rightarrow> nat \<Rightarrow> sect" where
  \<comment> \<open>the section of the heading at position \<open>i\<close>: its title and level, and the paragraphs
      that follow it up to the next heading or the end\<close>
  "section_at es i =
     \<lparr>title = Some (etext (es ! i)), level = elevel (es ! i),
      content = map etext (takeWhile is_paragraph (drop (Suc i) es))\<rparr>"

definition followed_by_paragraph :: "elem list \<Rightarrow> nat \<Rightarrow> bool" where
  \<comment> \<open>position \<open>i\<close> holds a heading and position \<open>i + 1\<close> a paragraph\<close>
  "followed_by_paragraph es i \<longleftrightarrow>
     is_heading (es ! i) \<and> Suc i < length es \<and> is_paragraph (es ! Suc i)"

definition heading_runs :: "elem list \<Rightarrow> sect list" where
  \<comment> \<open>one section per heading that is immediately followed by a paragraph, in input order\<close>
  "heading_runs es = map (section_at es) (filter (followed_by_paragraph es) [0..<length es])"

fun sections_from :: "elem list \<Rightarrow> sect list" where
  \<comment> \<open>the sections the second pass saves, read off the list from the left\<close>
  "sections_from [] = []"
| "sections_from (e # es) =
     (if is_heading e \<and> etext e \<noteq> [] \<and> takeWhile is_paragraph es \<noteq> []
      then [\<lparr>title = Some (etext e), level = elevel e,
              content = map etext (takeWhile is_paragraph es)\<rparr>]
      else []) @ sections_from es"

definition pending :: "grouper \<Rightarrow> sect list" where
  \<comment> \<open>the current section, if saving it is due\<close>
  "pending g = (if has_title_and_content (current_section g) then [current_section g] else [])"

definition text_invariant :: "grouper \<Rightarrow> bool" where
  \<comment> \<open>the flat text is empty exactly when no section was saved, and holds at least the two
      header lines otherwise\<close>
  "text_invariant g \<longleftrightarrow>
     (structured_content g = [] \<and> all_text_parts g = []) \<or>
     (structured_content g \<noteq> [] \<and> 146 \<le> length (concat (all_text_parts g)))"

definition paragraph_list_text :: "page \<Rightarrow> ustring" where
  \<comment> \<open>the output of the paragraph-list tier: the long paragraphs joined by a blank line, empty
      when there is none or the paragraphs could not be read\<close>
  "paragraph_list_text pg =
     (case container_paragraphs pg of None \<Rightarrow> [] | Some ps \<Rightarrow> join [NL, NL] (long_paragraphs ps))"

primrec first_seen :: "'a list \<Rightarrow> 'a list" where
  \<comment> \<open>the distinct members of a list, each at its first occurrence\<close>
  "first_seen [] = []"
| "first_seen (x # xs) = x # removeAll x (first_seen xs)"

definition outbound :: "ustring option list \<Rightarrow> ustring list" where
  \<comment> \<open>the links that count: present, non-empty and not to the site itself\<close>
  "outbound hrefs =
     filter (\<lambda>href. href \<noteq> [] \<and> \<not> contains href (ustr ''grokipedia.com''))
       (concat (map (\<lambda>h. case h of None \<Rightarrow> [] | Some href \<Rightarrow> [href]) hrefs))"

section \<open>Example pages\<close>

definition example_page :: page where
  \<comment> \<open>two headings, each followed by one long paragraph\<close>
  "example_page =
     \<lparr>title_elements = [Some (ustr ''Overview'')],
      current_url = ustr ''https://grokipedia.com/page/Example'',
      container_elements =
        [Element (ustr ''h1'') (ustr ''Overview''),
         Element (ustr ''p'') (ustr ''This article has details.''),
         Element (ustr ''h2'') (ustr ''History''),
         Element (ustr ''p'') (ustr ''Events of the early years.'')],
      document_elements = [],
      container_paragraphs =
        Some [ustr ''This article has details.'',
              ustr ''Events of the early years.''],
      container_text = Some (ustr ''Overview''),
      body_text = Some (ustr ''Overview''),
      link_hrefs = [Some (ustr ''https://example.org/a''), Some (ustr ''https://grokipedia.com/x''),
                    None, Some (ustr ''https://example.org/a''), Some (ustr ''https://example.org/b'')],
      container_headings = [ustr ''Overview'', ustr ''History'']\<rparr>"

definition short_page :: page where
  \<comment> \<open>a heading without paragraphs, and one short paragraph\<close>
  "short_page =
     \<lparr>title_elements = [None, Some (ustr ''Title'')],
      current_url = ustr ''https://grokipedia.com/page/Short'',
      container_elements = [Element (ustr ''h2'') (ustr ''History''), Element (ustr ''p'') (ustr ''short'')],
      document_elements = [],
      container_paragraphs = Some [ustr ''short''],
      container_text = Some (ustr ''History'' @ [NL] @ ustr ''short''),
      body_text = None,
      link_hrefs = [],
      container_headings = [ustr ''History'']\<rparr>"

section \<open>Auxiliary facts\<close>

lemma lead_nl_simps [simp]: "lead_nl [] = 0" "lead_nl (c # cs) = (if c = NL then Suc (lead_nl cs) else 0)"
  by (simp_all add: lead_nl_def)

lemma lead_nl_dropWhile [simp]: "lead_nl (dropWhile (\<lambda>x. x = NL) cs) = 0"
  by (induction cs) auto

lemma startswith_take: "startswith s p \<longleftrightarrow> take (length p) s = p"
  by (induction s p rule: startswith.induct) auto

lemma startswith_replicate: "startswith s (replicate n NL) \<longleftrightarrow> n \<le> lead_nl s"
proof (induction n arbitrary: s)
  case 0 show ?case by simp
next
  case (Suc n)
  show ?case by (cases s) (auto simp: Suc)
qed

lemma startswith_nl4: "startswith s (replicate 4 NL) \<longleftrightarrow> 4 \<le> lead_nl s"
  by (rule startswith_replicate)

lemma takeWhile_replicate_nl:
  "takeWhile (\<lambda>x. x = NL) (replicate m NL @ ys) = replicate m NL @ takeWhile (\<lambda>x. x = NL) ys"
  by (induction m) auto

lemma dropWhile_replicate_nl:
  "dropWhile (\<lambda>x. x = NL) (replicate m NL @ ys) = dropWhile (\<lambda>x. x = NL) ys"
  by (induction m) auto

lemma lead_re_sub: "lead_nl (re_sub_newlines s) = (if 4 \<le> lead_nl s then 2 else lead_nl s)"
proof (induction s rule: re_sub_newlines.induct)
  case 1 show ?case by simp
next
  case (2 c cs)
  show ?case
  proof (cases "c = NL \<and> 3 \<le> length (takeWhile (\<lambda>x. x = NL) cs)")
    case True
    with 2(1)[OF True] True show ?thesis by (simp add: lead_nl_def[symmetric])
  next
    case False
    with 2(2)[OF False] show ?thesis by (auto simp: lead_nl_def split: if_splits)
  qed
qed

lemma re_sub_no4: "\<not> contains (re_sub_newlines s) (replicate 4 NL)"
proof (induction s rule: re_sub_newlines.induct)
  case 1 show ?case by simp
next
  case (2 c cs)
  show ?case
  proof (cases "c = NL \<and> 3 \<le> length (takeWhile (\<lambda>x. x = NL) cs)")
    case True
    let ?d = "dropWhile (\<lambda>x. x = NL) cs"
    have l1: "lead_nl (re_sub_newlines ?d) = 0" by (simp add: lead_re_sub)
    have e: "re_sub_newlines (c # cs) = NL # NL # re_sub_newlines ?d" using True by simp
    have "\<not> startswith (NL # NL # re_sub_newlines ?d) (replicate 4 NL)"
      "\<not> startswith (NL # re_sub_newlines ?d) (replicate 4 NL)"
      using l1 by (simp_all add: startswith_nl4)
    with 2(1)[OF True] show ?thesis unfolding e by (simp only: contains.simps) simp
  next
    case False
    then have e: "re_sub_newlines (c # cs) = c # re_sub_newlines cs" by auto
    from False have "c \<noteq> NL \<or> lead_nl cs < 3" by (auto simp: lead_nl_def)
    then have "lead_nl (c # re_sub_newlines cs) < 4"
      by (auto simp: lead_re_sub)
    then have "\<not> startswith (c # re_sub_newlines cs) (replicate 4 NL)"
      by (simp only: startswith_nl4)
    with 2(2)[OF False] show ?thesis unfolding e by (simp only: contains.simps) simp
  qed
qed

lemma re_sub_append_nonl:
  "xs = [] \<or> last xs \<noteq> NL \<Longrightarrow> re_sub_newlines (xs @ zs) = re_sub_newlines xs @ re_sub_newlines zs"
proof (induction xs rule: re_sub_newlines.induct)
  case 1 show ?case by simp
next
  case (2 c cs)
  show ?case
  proof (cases "c = NL \<and> 3 \<le> length (takeWhile (\<lambda>x. x = NL) cs)")
    case True
    from 2(3) True have ex: "\<exists>x\<in>set cs. x \<noteq> NL"
      by (cases cs rule: rev_cases) (auto split: if_splits)
    then have tw: "takeWhile (\<lambda>x. x = NL) (cs @ zs) = takeWhile (\<lambda>x. x = NL) cs"
      and dw: "dropWhile (\<lambda>x. x = NL) (cs @ zs) = dropWhile (\<lambda>x. x = NL) cs @ zs"
      by auto
    have dl: "dropWhile (\<lambda>x. x = NL) cs = [] \<or> last (dropWhile (\<lambda>x. x = NL) cs) \<noteq> NL"
      using 2(3) ex by (cases cs rule: rev_cases) (auto simp: dropWhile_append split: if_splits)
    show ?thesis using True 2(1)[OF True dl] tw dw by simp
  next
    case False
    show ?thesis
    proof (cases "cs = []")
      case True
      with 2(3) have "c \<noteq> NL" by simp
      with True show ?thesis by simp
    next
      case ne: False
      with 2(3) have l: "cs = [] \<or> last cs \<noteq> NL" by simp
      then have ex: "\<exists>x\<in>set cs. x \<noteq> NL" using ne
        by (cases cs rule: rev_cases) auto
      then have tw: "takeWhile (\<lambda>x. x = NL) (cs @ zs) = takeWhile (\<lambda>x. x = NL) cs"
        by auto
      show ?thesis using False 2(2)[OF False l] tw by auto
    qed
  qed
qed

lemma re_sub_run:
  "4 \<le> n \<Longrightarrow> ys = [] \<or> hd ys \<noteq> NL \<Longrightarrow>
   re_sub_newlines (replicate n NL @ ys) = [NL, NL] @ re_sub_newlines ys"
proof -
  assume n: "4 \<le> n" and ys: "ys = [] \<or> hd ys \<noteq> NL"
  obtain m where m: "n = Suc m" "3 \<le> m" using n by (cases n) auto
  have tw: "takeWhile (\<lambda>x. x = NL) (replicate m NL @ ys) = replicate m NL"
    using ys by (cases ys) (auto simp: takeWhile_replicate_nl)
  have dw: "dropWhile (\<lambda>x. x = NL) (replicate m NL @ ys) = ys"
    using ys by (cases ys) (auto simp: dropWhile_replicate_nl)
  show ?thesis using m tw dw by simp
qed

lemma section_header_block: "section_header t = delimiter_block t"
  by (simp add: section_header_def delimiter_block_def)

lemma boundary_parts_block: "concat (boundary_parts t) = delimiter_block t"
  by (simp add: boundary_parts_def delimiter_block_def)

lemma match_title_find: "match_title (py_strip line) titles = find (title_matches line) titles"
  by (induction titles) (auto simp: title_matches_def startswith_take)

lemma format_lines_emit:
  "format_lines titles lines parts = parts @ concat (map (emit_line titles) lines)"
  by (induction lines arbitrary: parts)
     (auto simp: emit_line_def match_title_find section_header_block Let_def split: option.splits)

lemma py_strip_Nil [simp]: "py_strip [] = []" by (simp add: py_strip_def)

lemma find_blank: "[] \<notin> set titles \<Longrightarrow> find (title_matches []) titles = None"
  by (induction titles) (auto simp: title_matches_def)

lemma collect_paragraphs_fields:
  "current_section (collect_paragraphs es g) =
     (current_section g)\<lparr>content := content (current_section g) @ map etext (takeWhile is_paragraph es)\<rparr>"
  "structured_content (collect_paragraphs es g) = structured_content g"
  "all_text_parts (collect_paragraphs es g) = all_text_parts g"
  by (induction es arbitrary: g) auto

lemma structured_save_if_realized:
  "structured_content (save_if_realized g) = structured_content g @ pending g"
  by (simp add: save_if_realized_def save_section_def pending_def)

lemma second_pass_sections:
  "structured_content (save_if_realized (second_pass es g)) =
   structured_content (save_if_realized g) @ sections_from es"
proof (induction es arbitrary: g)
  case Nil show ?case by simp
next
  case (Cons e es)
  show ?case
  proof (cases e)
    case (Paragraph t i)
    then show ?thesis using Cons.IH by simp
  next
    case (Heading t l i)
    let ?g = "collect_paragraphs es
                ((save_if_realized g)\<lparr>current_section := \<lparr>title = Some t, level = l, content = []\<rparr>\<rparr>)"
    have "structured_content (save_if_realized ?g) = structured_content ?g @ pending ?g"
      by (rule structured_save_if_realized)
    also have "structured_content ?g = structured_content (save_if_realized g)"
      by (simp add: collect_paragraphs_fields)
    also have "pending ?g = sections_from [e] @ (if t \<noteq> [] \<and> takeWhile is_paragraph es \<noteq> []
          then [\<lparr>title = Some t, level = l, content = map etext (takeWhile is_paragraph es)\<rparr>] else [])"
      by (simp add: collect_paragraphs_fields pending_def has_title_and_content_def Heading)
    finally show ?thesis using Cons.IH[of ?g] by (simp add: Heading)
  qed
qed

lemma upt_0_Suc: "[0..<Suc n] = 0 # map Suc [0..<n]"
  by (simp add: upt_conv_Cons map_Suc_upt del: upt_Suc)

lemma takeWhile_nonempty: "takeWhile P xs \<noteq> [] \<longleftrightarrow> xs \<noteq> [] \<and> P (hd xs)"
  by (cases xs) auto

lemma heading_runs_Cons:
  "heading_runs (e # es) =
     (if is_heading e \<and> takeWhile is_paragraph es \<noteq> []
      then [\<lparr>title = Some (etext e), level = elevel e,
              content = map etext (takeWhile is_paragraph es)\<rparr>]
      else []) @ heading_runs es"
proof -
  have f: "followed_by_paragraph (e # es) (Suc i) = followed_by_paragraph es i" for i
    by (simp add: followed_by_paragraph_def)
  have s: "section_at (e # es) (Suc i) = section_at es i" for i
    by (simp add: section_at_def)
  have z: "followed_by_paragraph (e # es) 0 \<longleftrightarrow> is_heading e \<and> takeWhile is_paragraph es \<noteq> []"
    by (cases es) (auto simp: followed_by_paragraph_def)
  have z2: "section_at (e # es) 0 = \<lparr>title = Some (etext e), level = elevel e,
              content = map etext (takeWhile is_paragraph es)\<rparr>"
    by (simp add: section_at_def)
  have "heading_runs (e # es) =
        map (section_at (e # es)) (filter (followed_by_paragraph (e # es)) (0 # map Suc [0..<length es]))"
    unfolding heading_runs_def by (simp only: length_Cons upt_0_Suc)
  also have "\<dots> = (if followed_by_paragraph (e # es) 0 then [section_at (e # es) 0] else [])
        @ map (section_at es) (filter (followed_by_paragraph es) [0..<length es])"
    by (simp add: filter_map o_def f s del: upt_Suc)
  finally show ?thesis by (simp add: z z2 heading_runs_def)
qed

lemma heading_runs_Nil: "heading_runs [] = []"
  by (simp add: heading_runs_def)

lemma sections_from_runs:
  "\<forall>e\<in>set es. is_heading e \<longrightarrow> etext e \<noteq> [] \<Longrightarrow> sections_from es = heading_runs es"
  by (induction es) (auto simp: heading_runs_Cons heading_runs_Nil)

lemma sections_from_subset: "set (sections_from es) \<subseteq> set (heading_runs es)"
  by (induction es) (auto simp: heading_runs_Cons heading_runs_Nil)

lemma first_pass_titles: "\<forall>e\<in>set (first_pass idx raws). is_heading e \<longrightarrow> etext e \<noteq> []"
  by (induction idx raws rule: first_pass.induct) (auto simp: Let_def split: option.splits)

lemma group_sections_eq: "structured_content (group_sections es) = sections_from es"
  unfolding group_sections_def second_pass_sections
  by (simp add: structured_save_if_realized pending_def initial_grouper_def has_title_and_content_def)

lemma takeWhile_drop_nonempty: "n < length es \<Longrightarrow> P (es ! n) \<Longrightarrow> takeWhile P (drop n es) \<noteq> []"
  by (simp add: Cons_nth_drop_Suc[symmetric])

lemma heading_runs_content: "s \<in> set (heading_runs es) \<Longrightarrow> content s \<noteq> []"
  by (auto simp: heading_runs_def section_at_def followed_by_paragraph_def takeWhile_drop_nonempty)

lemma length_boundary: "length (concat (boundary_parts t)) = 146 + length t"
  by (simp add: boundary_parts_def)

lemma text_invariant_initial: "text_invariant initial_grouper"
  by (simp add: text_invariant_def initial_grouper_def)

lemma text_invariant_save: "text_invariant g \<Longrightarrow> text_invariant (save_if_realized g)"
  by (auto simp: text_invariant_def save_if_realized_def save_section_def length_boundary)

lemma text_invariant_collect:
  "text_invariant (collect_paragraphs es (g\<lparr>current_section := s\<rparr>)) = text_invariant g"
  by (simp add: text_invariant_def collect_paragraphs_fields)

lemma text_invariant_second_pass: "text_invariant g \<Longrightarrow> text_invariant (second_pass es g)"
proof (induction es arbitrary: g)
  case Nil then show ?case by simp
next
  case (Cons e es)
  then show ?case by (cases e) (simp_all add: text_invariant_collect text_invariant_save)
qed

lemma text_invariant_grouped: "text_invariant (grouped pg)"
  by (simp add: grouped_def group_sections_def text_invariant_save text_invariant_second_pass
      text_invariant_initial)

lemma short_structured_text:
  assumes "length (structured_text pg) < 100"
  shows "structured_text pg = []" and "structured_content (grouped pg) = []"
  using assms text_invariant_grouped[of pg] by (auto simp: structured_text_def text_invariant_def)

lemma set_first_seen [simp]: "set (first_seen xs) = set xs"
  by (induction xs) auto

lemma distinct_first_seen [simp]: "distinct (first_seen xs)"
  by (induction xs) (auto simp: distinct_removeAll)

lemma filter_removeAll_insert:
  "filter (\<lambda>u. u \<notin> seen) (removeAll x ys) = filter (\<lambda>u. u \<notin> insert x seen) ys"
  by (induction ys) auto

lemma filter_removeAll_seen:
  "x \<in> seen \<Longrightarrow> filter (\<lambda>u. u \<notin> seen) (removeAll x ys) = filter (\<lambda>u. u \<notin> seen) ys"
  by (induction ys) auto

lemma outbound_simps:
  "outbound [] = []"
  "outbound (None # hs) = outbound hs"
  "outbound (Some href # hs) =
     (if href \<noteq> [] \<and> \<not> contains href (ustr ''grokipedia.com'') then href # outbound hs else outbound hs)"
  by (simp_all add: outbound_def)

lemma reference_loop_urls:
  "seen = set (map url refs) \<Longrightarrow> length refs < 100 \<Longrightarrow>
   map url (reference_loop hs seen refs) =
   map url refs @ take (100 - length refs) (filter (\<lambda>u. u \<notin> seen) (first_seen (outbound hs)))"
proof (induction hs seen refs rule: reference_loop.induct)
  case (1 seen refs) show ?case by (simp add: outbound_simps)
next
  case (2 hs seen refs) then show ?case by (simp add: outbound_simps)
next
  case (3 href hs seen refs)
  let ?ok = "href \<noteq> [] \<and> \<not> contains href (ustr ''grokipedia.com'')"
  let ?refs' = "refs @ [\<lparr>number = length refs + 1, url = href\<rparr>]"
  show ?case
  proof (cases "?ok \<and> href \<notin> seen")
    case True
    show ?thesis
    proof (cases "100 \<le> length ?refs'")
      case full: True
      with "3.prems" have "100 - length refs = Suc 0" by simp
      with True full show ?thesis by (simp add: outbound_simps Let_def)
    next
      case more: False
      have "map url (reference_loop hs (insert href seen) ?refs') =
            map url ?refs' @ take (100 - length ?refs')
              (filter (\<lambda>u. u \<notin> insert href seen) (first_seen (outbound hs)))"
        using True more "3.prems" by (intro "3.IH"(1)) auto
      moreover have "100 - length refs = Suc (100 - length ?refs')" using more by simp
      ultimately show ?thesis using True more
        by (simp add: outbound_simps Let_def filter_removeAll_insert)
    qed
  next
    case False
    have "map url (reference_loop hs seen refs) =
          map url refs @ take (100 - length refs) (filter (\<lambda>u. u \<notin> seen) (first_seen (outbound hs)))"
      using False "3.prems" by (intro "3.IH"(2)) auto
    then show ?thesis using False by (auto simp: outbound_simps filter_removeAll_seen)
  qed
qed

lemma reference_loop_numbers:
  "map number refs = [1..<Suc (length refs)] \<Longrightarrow>
   map number (reference_loop hs seen refs) = [1..<Suc (length (reference_loop hs seen refs))]"
  by (induction hs seen refs rule: reference_loop.induct) (auto simp: Let_def)

lemma scrape_succeeds: "fallback_chain pg = Inr t \<Longrightarrow> \<exists>r. scrape_article_page pg = Inr r"
  by (simp add: scrape_article_page_def Let_def split: prod.splits)

lemma formatter_no_four_newlines:
  assumes "section_titles \<noteq> []"
  shows "\<not> contains (format_content_with_sections content_text section_titles) (replicate 4 NL)"
proof (cases "content_text = []")
  case True
  then show ?thesis by (simp add: format_content_with_sections_def numeral_eq_Suc)
next
  case False
  with assms show ?thesis by (simp add: format_content_with_sections_def re_sub_no4)
qed

lemma scrape_result:
  assumes "scrape_article_page pg = Inr r"
  shows "\<exists>t. fallback_chain pg = Inr t \<and>
           res_content_text r =
             (if section_titles_of pg \<noteq> [] \<and> structured_content (grouped pg) = []
              then format_content_with_sections t (section_titles_of pg) else t)"
    and "res_word_count r = length (py_split (res_content_text r))"
    and "res_char_count r = length (res_content_text r)"
    and "res_references r = extract_references (link_hrefs pg)"
    and "res_references_count r = length (res_references r)"
    and "res_structured_content r =
          (if structured_content (grouped pg) \<noteq> [] then Some (structured_content (grouped pg)) else None)"
    and "res_section_titles r =
          (if section_titles_of pg \<noteq> [] then Some (section_titles_of pg) else None)"
  using assms unfolding scrape_article_page_def
  by (cases "fallback_chain pg"; auto simp: Let_def split: if_splits)+

subsection \<open>The example pages evaluated\<close>

lemma example_first_pass:
  "first_pass 0 (all_elements example_page) =
   [Heading (ustr ''Overview'') 1 0,
    Paragraph (ustr ''This article has details.'') 1,
    Heading (ustr ''History'') 2 2,
    Paragraph (ustr ''Events of the early years.'') 3]"
  by (simp add: example_page_def all_elements_def ustr_def py_strip_def is_space_def heading_level_def)

lemma example_sections:
  "structured_content (grouped example_page) =
   [\<lparr>title = Some (ustr ''Overview''), level = 1, content = [ustr ''This article has details.'']\<rparr>,
    \<lparr>title = Some (ustr ''History''), level = 2, content = [ustr ''Events of the early years.'']\<rparr>]"
  by (simp add: grouped_def group_sections_eq example_first_pass) (simp add: ustr_def)

lemma fallback_keeps_structured:
  assumes "structured_content (grouped pg) \<noteq> []"
  shows "fallback_chain pg = Inr (structured_text pg)"
proof -
  from assms text_invariant_grouped[of pg] have "146 \<le> length (structured_text pg)"
    by (simp add: text_invariant_def structured_text_def)
  then show ?thesis
    by (auto simp: fallback_chain_def paragraph_fallback_def final_fallback_def)
qed

lemma example_scrape: "\<exists>r. scrape_article_page example_page = Inr r"
  by (rule scrape_succeeds[OF fallback_keeps_structured]) (simp add: example_sections)

lemma short_first_pass:
  "first_pass 0 (all_elements short_page) = [Heading (ustr ''History'') 2 0]"
  by (simp add: short_page_def all_elements_def ustr_def py_strip_def is_space_def heading_level_def)

lemma short_structured:
  "structured_content (grouped short_page) = []" "structured_text short_page = []"
  by (simp_all add: structured_text_def grouped_def short_first_pass group_sections_def
      save_if_realized_def has_title_and_content_def initial_grouper_def)

lemma short_fields:
  "title_elements short_page = [None, Some (ustr ''Title'')]"
  "container_paragraphs short_page = Some [ustr ''short'']"
  "container_text short_page = Some (ustr ''History'' @ [NL] @ ustr ''short'')"
  "container_headings short_page = [ustr ''History'']"
  by (simp_all add: short_page_def)

lemma short_paragraphs: "paragraph_list_text short_page = []"
  by (simp add: paragraph_list_text_def short_fields long_paragraphs_def ustr_def py_strip_def
      is_space_def)

lemma short_titles: "section_titles_of short_page = [ustr ''History'']"
  "extract_section_titles short_page = [ustr ''History'']"
  by (simp_all add: section_titles_of_def short_structured extract_section_titles_def short_fields
      ustr_def py_strip_def is_space_def)

lemma short_fallback: "fallback_chain short_page = Inr (ustr ''History'' @ [NL] @ ustr ''short'')"
  by (simp add: fallback_chain_def short_structured paragraph_fallback_def final_fallback_def
      short_fields long_paragraphs_def ustr_def py_strip_def is_space_def)

lemma example_references:
  "first_seen (outbound (link_hrefs example_page)) =
     [ustr ''https://example.org/a'', ustr ''https://example.org/b'']"
  by (simp add: example_page_def outbound_def ustr_def)

lemma extract_references_urls:
  "map url (extract_references hrefs) = take 100 (first_seen (outbound hrefs))"
  using reference_loop_urls[of "{}" "[]" hrefs] by (simp add: extract_references_def)

lemma example_reference_count: "length (extract_references (link_hrefs example_page)) = 2"
proof -
  have "length (map url (extract_references (link_hrefs example_page))) = 2"
    unfolding extract_references_urls example_references by simp
  then show ?thesis by simp
qed

lemma replicate_numeral_Cons: "replicate (numeral k) x = x # replicate (pred_numeral k) x"
  by (simp add: numeral_eq_Suc)

lemma short_formatted:
  "format_content_with_sections (ustr ''History'' @ [NL] @ ustr ''short'') [ustr ''History''] =
   [NL, NL] @ replicate 70 EQS @ [NL] @ ustr ''History'' @ [NL] @ replicate 70 EQS @ [NL, NL, NL]
     @ ustr ''short''"
  by (simp add: format_content_with_sections_def joined_parts_def section_header_def ustr_def
      py_strip_def is_space_def replicate_numeral_Cons)

lemma short_words:
  "length (py_split ([NL, NL] @ replicate 70 EQS @ [NL] @ ustr ''History'' @ [NL]
      @ replicate 70 EQS @ [NL, NL, NL] @ ustr ''short'')) = 4"
  by (simp add: py_split_def is_space_def ustr_def replicate_numeral_Cons)

lemma double_title_joined:
  "joined_parts (ustr ''Tit'' @ [NL] @ ustr ''Tit'') [ustr ''Tit''] =
   ([NL, NL] @ replicate 70 EQS @ [NL] @ ustr ''Tit'' @ [NL] @ replicate 70 EQS) @ replicate 5 NL
     @ (replicate 70 EQS @ [NL] @ ustr ''Tit'' @ [NL] @ replicate 70 EQS @ [NL, NL])"
  by (simp add: joined_parts_def section_header_def ustr_def py_strip_def is_space_def
      replicate_numeral_Cons)

lemma short_scrape: "\<exists>r. scrape_article_page short_page = Inr r"
  by (rule scrape_succeeds[OF short_fallback])

section \<open>The claims\<close>

text \<open>
  Claim C1. For every classified element sequence, that is every output of the first pass,
  the sections the grouper realizes are exactly one per heading that is immediately followed
  by a paragraph, in input order; each carries that heading's title and level and, as its
  paragraph list, the paragraphs following the heading up to the next heading or the end of the
  input, in their original order.
\<close>

theorem grouper_realizes_runs:
  "structured_content (group_sections (first_pass idx raws)) = heading_runs (first_pass idx raws)"
  by (simp add: group_sections_eq sections_from_runs first_pass_titles)

theorem grouper_realizes_runs_witness:
  "structured_content (group_sections (first_pass 0 (all_elements example_page))) =
   [\<lparr>title = Some (ustr ''Overview''), level = 1, content = [ustr ''This article has details.'']\<rparr>,
    \<lparr>title = Some (ustr ''History''), level = 2, content = [ustr ''Events of the early years.'']\<rparr>]"
proof -
  have "heading_runs (first_pass 0 (all_elements example_page)) =
   [\<lparr>title = Some (ustr ''Overview''), level = 1, content = [ustr ''This article has details.'']\<rparr>,
    \<lparr>title = Some (ustr ''History''), level = 2, content = [ustr ''Events of the early years.'']\<rparr>]"
    unfolding example_first_pass by (simp add: heading_runs_Cons heading_runs_Nil)
  with grouper_realizes_runs[of 0 "all_elements example_page"] show ?thesis by simp
qed

text \<open>
  Claim C2. Every section in the \<open>structured_content\<close> of a result has at least one
  paragraph, and it is the section of a heading of the input that is immediately followed by a
  paragraph, holding the paragraphs of that heading only: a heading with no paragraph before
  the next heading or the end of the input leaves no entry.
\<close>

theorem realized_sections_nonempty:
  assumes "scrape_article_page pg = Inr r" and "res_structured_content r = Some secs"
  shows "\<forall>s\<in>set secs. content s \<noteq> [] \<and> s \<in> set (heading_runs (first_pass 0 (all_elements pg)))"
proof -
  from assms scrape_result(6)[OF assms(1)] have "secs = structured_content (grouped pg)"
    by (simp split: if_splits)
  then have "secs = sections_from (first_pass 0 (all_elements pg))"
    by (simp add: grouped_def group_sections_eq)
  then show ?thesis using sections_from_subset heading_runs_content by blast
qed

theorem realized_sections_nonempty_witness:
  "\<exists>r secs. scrape_article_page example_page = Inr r \<and> res_structured_content r = Some secs \<and>
     length secs = 2 \<and>
     (\<forall>s\<in>set secs. content s \<noteq> [] \<and>
        s \<in> set (heading_runs (first_pass 0 (all_elements example_page))))"
proof -
  from example_scrape obtain r where r: "scrape_article_page example_page = Inr r" ..
  let ?secs = "structured_content (grouped example_page)"
  have s: "res_structured_content r = Some ?secs"
    using scrape_result(6)[OF r] by (simp add: example_sections)
  have l: "length ?secs = 2" by (simp add: example_sections)
  from realized_sections_nonempty[OF r s] r s l show ?thesis by blast
qed

text \<open>
  Claim C3. In every result, \<open>structured_content\<close> is present exactly when the grouper
  realized at least one section, and \<open>section_titles\<close> is present exactly when the list of
  heading titles collected from the container is non-empty and \<open>structured_content\<close> is
  absent; the fields then hold the grouper's sections and the collected titles.
\<close>

theorem structured_content_presence:
  assumes "scrape_article_page pg = Inr r"
  shows "(res_structured_content r \<noteq> None \<longleftrightarrow> structured_content (grouped pg) \<noteq> []) \<and>
         (res_section_titles r \<noteq> None \<longleftrightarrow>
            extract_section_titles pg \<noteq> [] \<and> res_structured_content r = None) \<and>
         res_structured_content r =
           (if structured_content (grouped pg) = [] then None
            else Some (structured_content (grouped pg))) \<and>
         res_section_titles r =
           (if extract_section_titles pg \<noteq> [] \<and> res_structured_content r = None
            then Some (extract_section_titles pg) else None)"
  using scrape_result(6,7)[OF assms] by (auto simp: section_titles_of_def)

theorem structured_content_presence_witness:
  "(\<exists>r. scrape_article_page example_page = Inr r \<and> res_structured_content r \<noteq> None \<and>
        res_section_titles r = None) \<and>
   (\<exists>r. scrape_article_page short_page = Inr r \<and> res_structured_content r = None \<and>
        res_section_titles r = Some [ustr ''History''])"
proof
  from example_scrape obtain r where r: "scrape_article_page example_page = Inr r" ..
  from structured_content_presence[OF r] have
    "res_structured_content r \<noteq> None \<and> res_section_titles r = None"
    by (simp add: example_sections)
  with r show "\<exists>r. scrape_article_page example_page = Inr r \<and> res_structured_content r \<noteq> None \<and>
        res_section_titles r = None" by blast
next
  from short_scrape obtain r where r: "scrape_article_page short_page = Inr r" ..
  from structured_content_presence[OF r] have
    "res_structured_content r = None \<and> res_section_titles r = Some [ustr ''History'']"
    by (simp add: short_structured short_titles)
  with r show "\<exists>r. scrape_article_page short_page = Inr r \<and> res_structured_content r = None \<and>
        res_section_titles r = Some [ustr ''History'']" by blast
qed

text \<open>
  Claim C4. For every sequence of link targets, the references hold no URL twice, their
  numbers are 1, 2, 3, ... in order, there are at most 100 of them, and their URLs are the first
  100 distinct outbound URLs in the order in which they are first seen.
\<close>

theorem references_numbered:
  "distinct (map url (extract_references hrefs)) \<and>
   map number (extract_references hrefs) = [1..<Suc (length (extract_references hrefs))] \<and>
   length (extract_references hrefs) \<le> 100 \<and>
   map url (extract_references hrefs) = take 100 (first_seen (outbound hrefs))"
proof -
  have u: "map url (extract_references hrefs) = take 100 (first_seen (outbound hrefs))"
    using reference_loop_urls[of "{}" "[]" hrefs] by (simp add: extract_references_def)
  have "length (map url (extract_references hrefs)) \<le> 100" unfolding u by simp
  then have len: "length (extract_references hrefs) \<le> 100" by simp
  have d: "distinct (map url (extract_references hrefs))" unfolding u by simp
  have n: "map number (extract_references hrefs) = [1..<Suc (length (extract_references hrefs))]"
    unfolding extract_references_def by (rule reference_loop_numbers) simp
  from d n len u show ?thesis by (intro conjI)
qed

theorem references_numbered_witness:
  "map url (extract_references (link_hrefs example_page)) =
     [ustr ''https://example.org/a'', ustr ''https://example.org/b''] \<and>
   map number (extract_references (link_hrefs example_page)) = [1, 2]"
proof -
  note T = references_numbered[of "link_hrefs example_page"]
  from T have u: "map url (extract_references (link_hrefs example_page)) =
     [ustr ''https://example.org/a'', ustr ''https://example.org/b'']"
    by (simp add: example_references)
  then have "length (map url (extract_references (link_hrefs example_page))) = 2" by simp
  then have "length (extract_references (link_hrefs example_page)) = 2" by simp
  with T have "map number (extract_references (link_hrefs example_page)) = [1, 2]"
    by (simp add: upt_conv_Cons)
  with u show ?thesis by simp
qed

text \<open>
  Claim C5. Whenever the flat text of the structured tier is shorter than 100 characters
  (empty included), the text of the paragraph-list tier is shorter than 50 characters (empty
  included) and the text of the container can be read, the fallback chain ends with the raw
  text of the container as \<open>content_text\<close>.
\<close>

theorem fallback_reaches_container_text:
  assumes "length (structured_text pg) < 100"
      and "length (paragraph_list_text pg) < 50"
      and "container_text pg = Some ct"
  shows "fallback_chain pg = Inr ct"
proof -
  have e: "structured_text pg = []" using assms(1) by (rule short_structured_text)
  have "paragraph_fallback pg [] = paragraph_list_text pg"
    by (simp add: paragraph_fallback_def paragraph_list_text_def Let_def split: option.splits)
  then show ?thesis using assms(2,3) by (simp add: fallback_chain_def e final_fallback_def)
qed

theorem fallback_reaches_container_text_witness:
  "length (structured_text short_page) < 100 \<and> length (paragraph_list_text short_page) < 50 \<and>
   container_text short_page = Some (ustr ''History'' @ [NL] @ ustr ''short'') \<and>
   fallback_chain short_page = Inr (ustr ''History'' @ [NL] @ ustr ''short'')"
proof -
  have a: "length (structured_text short_page) < 100" by (simp add: short_structured)
  have b: "length (paragraph_list_text short_page) < 50" by (simp add: short_paragraphs)
  have c: "container_text short_page = Some (ustr ''History'' @ [NL] @ ustr ''short'')"
    by (simp add: short_page_def)
  from fallback_reaches_container_text[OF a b c] a b c show ?thesis by simp
qed

text \<open>
  Claim C6. For every title, the header the grouper appends to the flat text when it saves a
  section with that title and the block the formatter appends for a line matching that title
  are the same delimiter block: a blank line, a line of 70 equals signs, the title, a line of 70
  equals signs, a blank line.
\<close>

theorem delimiter_block_shared:
  assumes "title (current_section g) = Some t"
  shows "concat (all_text_parts (save_section g)) =
           concat (all_text_parts g) @ delimiter_block t
             @ join [NL, NL] (content (current_section g)) \<and>
         (\<forall>line titles parts. match_title (py_strip line) titles = Some t \<longrightarrow>
            format_lines titles [line] parts = parts @ [delimiter_block t]) \<and>
         section_header t = delimiter_block t \<and>
         delimiter_block t =
           [NL, NL] @ replicate 70 EQS @ [NL] @ t @ [NL] @ replicate 70 EQS @ [NL, NL]"
proof (intro conjI allI impI)
  show "concat (all_text_parts (save_section g)) =
          concat (all_text_parts g) @ delimiter_block t
            @ join [NL, NL] (content (current_section g))"
    using assms by (simp add: save_section_def title_text_def boundary_parts_block)
next
  fix line titles parts
  assume "match_title (py_strip line) titles = Some t"
  then show "format_lines titles [line] parts = parts @ [delimiter_block t]"
    by (simp add: section_header_block)
next
  show "section_header t = delimiter_block t" by (rule section_header_block)
next
  show "delimiter_block t =
          [NL, NL] @ replicate 70 EQS @ [NL] @ t @ [NL] @ replicate 70 EQS @ [NL, NL]"
    by (simp add: delimiter_block_def)
qed

theorem delimiter_block_shared_witness:
  "title (current_section
     (second_pass [Heading (ustr ''History'') 2 0, Paragraph (ustr ''Events of the early years.'') 1]
        initial_grouper)) = Some (ustr ''History'') \<and>
   concat (all_text_parts
     (group_sections [Heading (ustr ''History'') 2 0, Paragraph (ustr ''Events of the early years.'') 1]))
     = delimiter_block (ustr ''History'') @ ustr ''Events of the early years.'' \<and>
   match_title (py_strip (ustr ''History'')) [ustr ''History''] = Some (ustr ''History'') \<and>
   format_lines [ustr ''History''] [ustr ''History''] [] = [delimiter_block (ustr ''History'')] \<and>
   length (delimiter_block (ustr ''History'')) = 153"
proof -
  let ?H = "ustr ''History''"
  let ?P = "ustr ''Events of the early years.''"
  let ?g = "second_pass [Heading ?H 2 0, Paragraph ?P 1] initial_grouper"
  have sp: "?g = initial_grouper\<lparr>current_section := \<lparr>title = Some ?H, level = 2, content = [?P]\<rparr>,
                                  paragraph_count := 1\<rparr>"
    by (simp add: save_if_realized_def has_title_and_content_def initial_grouper_def)
  have t: "title (current_section ?g) = Some ?H" unfolding sp by simp
  have c: "content (current_section ?g) = [?P]" unfolding sp by simp
  have p: "all_text_parts ?g = []" unfolding sp by (simp add: initial_grouper_def)
  have ne: "?H \<noteq> []" by (simp add: ustr_def)
  have gs: "group_sections [Heading ?H 2 0, Paragraph ?P 1] = save_section ?g"
    unfolding group_sections_def save_if_realized_def has_title_and_content_def
    using t c ne by simp
  have m: "match_title (py_strip ?H) [?H] = Some ?H"
    by (simp add: ustr_def py_strip_def is_space_def)
  note T = delimiter_block_shared[OF t]
  have "concat (all_text_parts (save_section ?g)) =
          concat (all_text_parts ?g) @ delimiter_block ?H @ join [NL, NL] (content (current_section ?g))"
    using T by (rule conjunct1)
  then have "concat (all_text_parts (save_section ?g)) = delimiter_block ?H @ ?P"
    unfolding c p by simp
  then have a: "concat (all_text_parts (group_sections [Heading ?H 2 0, Paragraph ?P 1]))
      = delimiter_block ?H @ ?P"
    unfolding gs .
  have "\<forall>line titles parts. match_title (py_strip line) titles = Some ?H \<longrightarrow>
            format_lines titles [line] parts = parts @ [delimiter_block ?H]"
    using T by blast
  with m have f: "format_lines [?H] [?H] [] = [delimiter_block ?H]" by fastforce
  have "delimiter_block ?H =
          [NL, NL] @ replicate 70 EQS @ [NL] @ ?H @ [NL] @ replicate 70 EQS @ [NL, NL]"
    using T by blast
  then have l: "length (delimiter_block ?H) = 153" by (simp add: ustr_def)
  from t a m f l show ?thesis by (intro conjI)
qed

text \<open>
  Claim C7. For a non-empty list of section titles, the formatter's result is made line by
  line: a line whose trimmed text equals or starts with a title gives the delimiter block of
  the first such title in the order of the list, any other line is kept unchanged if it is not
  blank and dropped if it is; the pieces are joined by line feeds and long runs of line feeds
  are collapsed. (An empty text is returned as it is, which agrees with this unless the empty
  string is among the titles; the page scraper passes titles longer than two characters.)
\<close>

theorem formatter_lines:
  assumes "section_titles \<noteq> []" and "content_text \<noteq> [] \<or> [] \<notin> set section_titles"
  shows "format_content_with_sections content_text section_titles =
         re_sub_newlines (join [NL] (concat (map (emit_line section_titles) (split_on NL content_text))))"
proof (cases "content_text = []")
  case True
  with assms(2) have "[] \<notin> set section_titles" by simp
  then show ?thesis using True
    by (simp add: format_content_with_sections_def emit_line_def find_blank)
next
  case False
  with assms(1) show ?thesis
    by (simp add: format_content_with_sections_def joined_parts_def format_lines_emit)
qed

theorem formatter_lines_witness:
  "[ustr ''zz'', ustr ''His'', ustr ''History''] \<noteq> [] \<and>
   ustr ''abc'' @ [NL, NL] @ ustr '' History of x '' @ [NL] @ ustr '' tail'' \<noteq> [] \<and>
   format_content_with_sections
     (ustr ''abc'' @ [NL, NL] @ ustr '' History of x '' @ [NL] @ ustr '' tail'')
     [ustr ''zz'', ustr ''His'', ustr ''History''] =
   re_sub_newlines (join [NL] [ustr ''abc'', delimiter_block (ustr ''His''), ustr '' tail''])"
proof -
  let ?titles = "[ustr ''zz'', ustr ''His'', ustr ''History'']"
  let ?text = "ustr ''abc'' @ [NL, NL] @ ustr '' History of x '' @ [NL] @ ustr '' tail''"
  have a: "?titles \<noteq> []" by simp
  have b: "?text \<noteq> [] \<or> [] \<notin> set ?titles" by (simp add: ustr_def)
  have c: "?text \<noteq> []" by (simp add: ustr_def)
  have l: "split_on NL ?text = [ustr ''abc'', [], ustr '' History of x '', ustr '' tail'']"
    by (simp add: ustr_def)
  have e: "concat (map (emit_line ?titles) (split_on NL ?text)) =
           [ustr ''abc'', delimiter_block (ustr ''His''), ustr '' tail'']"
    unfolding l by (simp add: emit_line_def title_matches_def ustr_def py_strip_def is_space_def)
  from formatter_lines[OF a b] a c show ?thesis unfolding e by simp
qed

text \<open>
  Claim C8. For a non-empty list of section titles, the formatter's result never contains
  four consecutive line feeds, and every maximal run of four or more line feeds in the joined
  pieces appears in the result as exactly two line feeds.
\<close>

theorem formatter_newline_runs:
  assumes "section_titles \<noteq> []"
  shows "\<not> contains (format_content_with_sections content_text section_titles) (replicate 4 NL) \<and>
         (\<forall>xs n ys. content_text \<noteq> [] \<and> joined_parts content_text section_titles = xs @ replicate n NL @ ys
              \<and> 4 \<le> n \<and> (xs = [] \<or> last xs \<noteq> NL) \<and> (ys = [] \<or> hd ys \<noteq> NL) \<longrightarrow>
            format_content_with_sections content_text section_titles =
              re_sub_newlines xs @ [NL, NL] @ re_sub_newlines ys)"
proof (intro conjI allI impI)
  show "\<not> contains (format_content_with_sections content_text section_titles) (replicate 4 NL)"
    using assms by (rule formatter_no_four_newlines)
next
  fix xs n ys
  assume a: "content_text \<noteq> [] \<and> joined_parts content_text section_titles = xs @ replicate n NL @ ys
              \<and> 4 \<le> n \<and> (xs = [] \<or> last xs \<noteq> NL) \<and> (ys = [] \<or> hd ys \<noteq> NL)"
  then have "format_content_with_sections content_text section_titles
             = re_sub_newlines (xs @ replicate n NL @ ys)"
    using assms by (simp add: format_content_with_sections_def)
  also have "\<dots> = re_sub_newlines xs @ re_sub_newlines (replicate n NL @ ys)"
    using a by (intro re_sub_append_nonl) simp
  also have "re_sub_newlines (replicate n NL @ ys) = [NL, NL] @ re_sub_newlines ys"
    using a by (intro re_sub_run) simp_all
  finally show "format_content_with_sections content_text section_titles =
              re_sub_newlines xs @ [NL, NL] @ re_sub_newlines ys" .
qed

theorem formatter_newline_runs_witness:
  "[ustr ''Tit''] \<noteq> [] \<and>
   \<not> contains (format_content_with_sections (ustr ''Tit'' @ [NL] @ ustr ''Tit'') [ustr ''Tit''])
       (replicate 4 NL) \<and>
   format_content_with_sections (ustr ''Tit'' @ [NL] @ ustr ''Tit'') [ustr ''Tit''] =
     re_sub_newlines ([NL, NL] @ replicate 70 EQS @ [NL] @ ustr ''Tit'' @ [NL] @ replicate 70 EQS)
       @ [NL, NL]
       @ re_sub_newlines (replicate 70 EQS @ [NL] @ ustr ''Tit'' @ [NL] @ replicate 70 EQS @ [NL, NL])"
proof -
  let ?xs = "[NL, NL] @ replicate 70 EQS @ [NL] @ ustr ''Tit'' @ [NL] @ replicate 70 EQS"
  let ?ys = "replicate 70 EQS @ [NL] @ ustr ''Tit'' @ [NL] @ replicate 70 EQS @ [NL, NL]"
  let ?text = "ustr ''Tit'' @ [NL] @ ustr ''Tit''"
  have h: "[ustr ''Tit''] \<noteq> []" by simp
  note T = formatter_newline_runs[OF h, of ?text]
  have c: "?text \<noteq> []" by simp
  have n: "(4::nat) \<le> 5" by simp
  have x: "?xs = [] \<or> last ?xs \<noteq> NL" by simp
  have y': "?ys = [] \<or> hd ?ys \<noteq> NL" by simp
  from T have "format_content_with_sections ?text [ustr ''Tit''] =
      re_sub_newlines ?xs @ [NL, NL] @ re_sub_newlines ?ys"
    using c double_title_joined n x y' by blast
  with T h show ?thesis by blast
qed

text \<open>
  Claim C9. In every result, \<open>word_count\<close> is the number of whitespace-delimited tokens
  of the final \<open>content_text\<close> and \<open>char_count\<close> is its length; the final text is the
  formatter's output whenever the formatter ran, and the output of the fallback chain otherwise.
\<close>

theorem counts_match_final_text:
  assumes "scrape_article_page pg = Inr r"
  shows "res_word_count r = length (py_split (res_content_text r)) \<and>
         res_char_count r = length (res_content_text r) \<and>
         (\<exists>t. fallback_chain pg = Inr t \<and>
              res_content_text r =
                (if section_titles_of pg \<noteq> [] \<and> structured_content (grouped pg) = []
                 then format_content_with_sections t (section_titles_of pg) else t))"
  using scrape_result(1,2,3)[OF assms] by simp

theorem counts_match_final_text_witness:
  "\<exists>r. scrape_article_page short_page = Inr r \<and>
       res_content_text r =
         format_content_with_sections (ustr ''History'' @ [NL] @ ustr ''short'') [ustr ''History''] \<and>
       res_word_count r = 4 \<and> res_char_count r = 159"
proof -
  from short_scrape obtain r where r: "scrape_article_page short_page = Inr r" ..
  from counts_match_final_text[OF r] have
    t: "res_content_text r =
         format_content_with_sections (ustr ''History'' @ [NL] @ ustr ''short'') [ustr ''History'']"
    and w: "res_word_count r = length (py_split (res_content_text r))"
    and c: "res_char_count r = length (res_content_text r)"
    by (auto simp: short_fallback short_titles short_structured)
  have "res_word_count r = 4" unfolding w t short_formatted by (rule short_words)
  moreover have "res_char_count r = 159" unfolding c t short_formatted by (simp add: ustr_def)
  ultimately show ?thesis using r t by blast
qed

text \<open>
  Claim C10. Every result carries a \<open>references_count\<close> equal to the number of entries of
  its \<open>references\<close> list, which is the list of extracted references.
\<close>

theorem references_count_field:
  assumes "scrape_article_page pg = Inr r"
  shows "res_references_count r = length (res_references r) \<and>
         res_references r = extract_references (link_hrefs pg)"
  using scrape_result(4,5)[OF assms] by simp

theorem references_count_field_witness:
  "\<exists>r. scrape_article_page example_page = Inr r \<and> res_references_count r = 2 \<and>
       length (res_references r) = 2"
proof -
  from example_scrape obtain r where r: "scrape_article_page example_page = Inr r" ..
  from references_count_field[OF r] have
    "res_references_count r = 2 \<and> length (res_references r) = 2"
    by (simp add: example_reference_count)
  with r show ?thesis by blast
qed

end
